theory Spec2Isabelle
  imports Main "HOL-Library.Word"
begin

unbundle bit_operations_syntax

section \<open>The message queues of fibernet (src/include/mq.h)\<close>

text \<open>
  The header defines two classes: \<open>GlobalMQ\<close>, a fixed ring of \<open>MQ*\<close> with one readiness
  flag per slot, and \<open>MQ\<close>, the per-service mailbox, a growable ring of \<open>Message\<close>.

  Conventions of the embedding.
  \<^item> Every \<open>MQ\<close> method runs between \<open>LOCK()\<close> and \<open>UNLOCK()\<close> of the spinlock \<open>m_lock\<close>,
    so a method is one atomic step on the object; \<open>m_lock\<close> is 0 between steps and is not
    carried. The fences (\<open>__sync_synchronize\<close>) have no sequential content.
  \<^item> \<open>uint32_t\<close> is \<open>32 word\<close>, \<open>size_t\<close> is \<open>64 word\<close>. The \<open>int\<close> fields of \<open>MQ\<close> (\<open>cap\<close>,
    \<open>head\<close>, \<open>tail\<close>, \<open>in_global\<close>, \<open>lock_session\<close>, \<open>m_release\<close>) are \<open>int\<close>. The cursors are
    stepped by one below \<open>cap\<close>; the one computation that can leave the range of a 32-bit
    \<open>int\<close> is the doubling of \<open>cap\<close> in \<open>expand\<close>, and there the overflow is a result of
    the model (\<open>IntOverflow\<close>).
  \<^item> A pointer is an address, a \<open>nat\<close>; \<open>NULL\<close> is 0. A method takes the address of its
    object as the parameter \<open>this\<close>.
  \<^item> An \<open>assert\<close> that fails and an access outside an array are results of the model
    (\<open>Inl\<close> of an \<open>error\<close>); assertions are taken as compiled in.
  \<^item> \<open>GlobalMQ::instance()\<close> is the one global queue: the \<open>GlobalMQ\<close> state that the
    methods of \<open>MQ\<close> take and return next to the mailbox.
  \<^item> A cell of a fresh \<open>new Message[n]\<close> that was never written is \<open>None\<close>: the code only
    copies cells. A local variable that the code reads before it was ever assigned
    (\<open>uint32_t head = head;\<close>) holds an indeterminate value: that value is a parameter of
    the function, so every theorem holds for each value it may have.
\<close>

subsection \<open>Constants and macros\<close>

type_synonym mqref = nat

definition NULL :: mqref where
  "NULL = 0"

definition DEFAULT_QUEUE_SIZE :: int where
  "DEFAULT_QUEUE_SIZE = 64"

definition MAX_GLOBAL_MQ :: nat where
  "MAX_GLOBAL_MQ = 65536"

definition MQ_IN_GLOBAL :: int where
  "MQ_IN_GLOBAL = 1"

definition MQ_DISPATCHING :: int where
  "MQ_DISPATCHING = 2"

definition MQ_LOCKED :: int where
  "MQ_LOCKED = 3"

text \<open>\<open>#define GP(p) ((p) % MAX_GLOBAL_MQ)\<close>, on \<open>uint32_t\<close>.\<close>

definition GP :: "32 word \<Rightarrow> nat" where
  "GP p = unat p mod MAX_GLOBAL_MQ"

text \<open>The \<open>%\<close> of C++ on \<open>int\<close> truncates towards zero.\<close>

definition c_rem :: "int \<Rightarrow> int \<Rightarrow> int" where
  "c_rem a b = sgn a * (\<bar>a\<bar> mod \<bar>b\<bar>)"

text \<open>The range of \<open>int\<close>, 32 bits.\<close>

definition INT_MAX :: int where
  "INT_MAX = 2147483647"

definition INT_MIN :: int where
  "INT_MIN = - 2147483648"

datatype error = AssertionFailure | OutOfBounds | BadArrayLength | IntOverflow

text \<open>Is \<open>i\<close> an index of the array \<open>xs\<close>?\<close>

definition in_array :: "'a list \<Rightarrow> int \<Rightarrow> bool" where
  "in_array xs i = (0 \<le> i \<and> nat i < length xs)"

subsection \<open>GlobalMQ\<close>

record GlobalMQ =
  g_head :: "32 word"
  g_tail :: "32 word"
  g_queue :: "nat \<Rightarrow> mqref"
  g_flag :: "nat \<Rightarrow> bool"

text \<open>
  The constructor: \<open>head(0), tail(0)\<close>, \<open>queue = new MQ*[MAX_GLOBAL_MQ]\<close> (not initialised:
  its content \<open>mem\<close> is whatever the allocator returned), \<open>flag\<close> cleared by \<open>memset\<close>.
  The fields of the record are prefixed with \<open>g_\<close> to keep them apart from those of \<open>MQ\<close>.
\<close>

definition GlobalMQ_new :: "(nat \<Rightarrow> mqref) \<Rightarrow> GlobalMQ" where
  "GlobalMQ_new mem = \<lparr>g_head = 0, g_tail = 0, g_queue = mem, g_flag = (\<lambda>_. False)\<rparr>"

text \<open>
  \<open>__sync_bool_compare_and_swap(p, old, new)\<close> on the location whose content is \<open>cur\<close>:
  the success flag and the content afterwards.
\<close>

definition sync_bool_compare_and_swap :: "32 word \<Rightarrow> 32 word \<Rightarrow> 32 word \<Rightarrow> bool \<times> 32 word" where
  "sync_bool_compare_and_swap cur old new = (if cur = old then (True, new) else (False, cur))"

text \<open>
  \<open>__sync_fetch_and_add(p, n)\<close> on the location whose content is \<open>cur\<close>: the value
  fetched and the content afterwards.
\<close>

definition sync_fetch_and_add :: "32 word \<Rightarrow> 32 word \<Rightarrow> 32 word \<times> 32 word" where
  "sync_fetch_and_add cur n = (cur, cur + n)"

text \<open>
  \<open>GlobalMQ::pop\<close>. Its first statement is \<open>uint32_t head = head;\<close>: the name on the right
  is already the local one, so the local starts with an indeterminate value \<open>h0\<close> and the
  member \<open>head\<close> is not read. The compare-and-swap takes \<open>&head\<close>, the address of the
  local, and writes \<open>head + 1\<close> there; the local dies at the return. \<open>tail\<close> is the member.
\<close>

definition GlobalMQ_pop :: "32 word \<Rightarrow> GlobalMQ \<Rightarrow> GlobalMQ \<times> mqref" where
  "GlobalMQ_pop h0 g =
     (let l_head = h0;
          head_ptr = GP l_head
      in if head_ptr = GP (g_tail g) then (g, NULL)
         else if \<not> g_flag g head_ptr then (g, NULL)
         else let mq = g_queue g head_ptr;
                  (ok, l_head') = sync_bool_compare_and_swap l_head l_head (l_head + 1)
              in if \<not> ok then (g, NULL)
                 else (g\<lparr>g_flag := (g_flag g)(head_ptr := False)\<rparr>, mq))"

text \<open>
  \<open>GlobalMQ::push\<close>. Its first statement is
  \<open>uint32_t tail = GP(__sync_fetch_and_add(&tail,1));\<close>: again \<open>&tail\<close> is the address of the
  local being declared, whose content \<open>t0\<close> is indeterminate. The fetch-and-add increments
  the local, which the initialisation then overwrites with \<open>GP t0\<close>; the member \<open>tail\<close> is
  not touched.
\<close>

definition GlobalMQ_push :: "32 word \<Rightarrow> mqref \<Rightarrow> GlobalMQ \<Rightarrow> GlobalMQ" where
  "GlobalMQ_push t0 mq g =
     (let (fetched, l_tail') = sync_fetch_and_add t0 1;
          l_tail = GP fetched
      in g\<lparr>g_queue := (g_queue g)(l_tail := mq), g_flag := (g_flag g)(l_tail := True)\<rparr>)"

subsection \<open>MQ\<close>

record Message =
  source :: "32 word"
  session :: int
  data :: nat
  sz :: "64 word"

type_synonym cell = "Message option"

record MQ =
  m_handle :: "32 word"
  cap :: int
  head :: int
  tail :: int
  m_release :: int
  lock_session :: int
  in_global :: int
  queue :: "cell list"

text \<open>The constructor \<open>MQ::MQ(handle)\<close>. It does not touch the global queue.\<close>

definition MQ_new :: "32 word \<Rightarrow> MQ" where
  "MQ_new handle =
     \<lparr>m_handle = handle, cap = DEFAULT_QUEUE_SIZE, head = 0, tail = 0, m_release = 0,
      lock_session = 0, in_global = MQ_IN_GLOBAL,
      queue = replicate (nat DEFAULT_QUEUE_SIZE) None\<rparr>"

text \<open>\<open>MQ::pushglobal\<close>; \<open>t0\<close> is the indeterminate local of \<open>GlobalMQ::push\<close>.\<close>

fun pushglobal :: "mqref \<Rightarrow> 32 word \<Rightarrow> GlobalMQ \<times> MQ \<Rightarrow> error + GlobalMQ \<times> MQ" where
  "pushglobal this t0 (g, q) =
     (if in_global q = 0 then Inl AssertionFailure
      else let q1 = (if in_global q = MQ_DISPATCHING then q\<lparr>in_global := MQ_LOCKED\<rparr> else q)
           in if lock_session q1 = 0
              then Inr (GlobalMQ_push t0 this g, q1\<lparr>in_global := MQ_IN_GLOBAL\<rparr>)
              else Inr (g, q1))"

text \<open>
  \<open>MQ::pop\<close>: \<open>Some m\<close> is the return value \<open>true\<close> with \<open>*message = m\<close>, \<open>None\<close> is \<open>false\<close>
  (and \<open>*message\<close> is not written).
\<close>

definition pop :: "MQ \<Rightarrow> error + MQ \<times> cell option" where
  "pop q =
     (if head q \<noteq> tail q then
        if in_array (queue q) (head q) then
          let message = queue q ! nat (head q);
              h = head q + 1;
              q1 = q\<lparr>head := (if h \<ge> cap q then 0 else h)\<rparr>
          in Inr (q1\<lparr>in_global := 0\<rparr>, Some message)
        else Inl OutOfBounds
      else Inr (q, None))"

text \<open>
  \<open>MQ::expand\<close>. It starts with \<open>new Message[cap*2]\<close>: the product is computed on \<open>int\<close>,
  so a \<open>cap\<close> whose double does not fit is \<open>IntOverflow\<close> (signed overflow is undefined in
  C++), before anything is allocated or copied. The loop
  \<open>for (i=0;i<cap;i++) new_queue[i] = queue[(head + i) % cap];\<close>
  fills the first \<open>cap\<close> cells of the new array of \<open>cap*2\<close> cells; the others stay
  unwritten. A read outside \<open>queue\<close> is \<open>OutOfBounds\<close>.
\<close>

definition expand :: "MQ \<Rightarrow> error + MQ" where
  "expand q =
     (if cap q * 2 > INT_MAX \<or> cap q * 2 < INT_MIN then Inl IntOverflow
      else if cap q < 0 then Inl BadArrayLength
      else if list_ex (\<lambda>i. \<not> in_array (queue q) (c_rem (head q + int i) (cap q))) [0..<nat (cap q)]
      then Inl OutOfBounds
      else let new_queue = map (\<lambda>i. queue q ! nat (c_rem (head q + int i) (cap q))) [0..<nat (cap q)]
                             @ replicate (nat (cap q)) None
           in Inr (q\<lparr>head := 0, tail := cap q, cap := cap q * 2, queue := new_queue\<rparr>))"

text \<open>
  \<open>MQ::pushhead\<close>. Its first statement is \<open>int head = head - 1;\<close>: the local \<open>head\<close> starts
  from its own indeterminate value \<open>h0\<close>, not from the member. The last statement on it,
  \<open>head = head;\<close>, assigns the local to itself. The member \<open>head\<close> is written by \<open>expand\<close>
  only. \<open>tail\<close>, \<open>cap\<close> and \<open>queue\<close> are the members.
\<close>

fun pushhead :: "mqref \<Rightarrow> int \<Rightarrow> 32 word \<Rightarrow> Message \<Rightarrow> GlobalMQ \<times> MQ \<Rightarrow> error + GlobalMQ \<times> MQ" where
  "pushhead this h0 t0 message (g, q) =
     (let l_head = h0 - 1;
          l_head = (if l_head < 0 then cap q - 1 else l_head)
      in case (if l_head = tail q
               then (case expand q of
                       Inl e \<Rightarrow> Inl e
                     | Inr q1 \<Rightarrow> Inr (q1\<lparr>tail := tail q1 - 1\<rparr>, cap q1 - 1))
               else Inr (q, l_head)) of
           Inl e \<Rightarrow> Inl e
         | Inr (q2, l_head2) \<Rightarrow>
             if \<not> in_array (queue q2) l_head2 then Inl OutOfBounds
             else let q3 = q2\<lparr>queue := (queue q2)[nat l_head2 := Some message]\<rparr>
                  in if in_global q3 = MQ_LOCKED
                     then Inr (GlobalMQ_push t0 this g, q3\<lparr>in_global := MQ_IN_GLOBAL, lock_session := 0\<rparr>)
                     else if in_global q3 = MQ_DISPATCHING
                     then Inr (g, q3\<lparr>lock_session := 0\<rparr>)
                     else Inl AssertionFailure)"

text \<open>
  \<open>MQ::push\<close>; \<open>h0\<close> and \<open>t0\<close> are the indeterminate locals of \<open>pushhead\<close> and of
  \<open>GlobalMQ::push\<close>. The parameter is a message, so \<open>assert(message)\<close> holds.
\<close>

fun push :: "mqref \<Rightarrow> int \<Rightarrow> 32 word \<Rightarrow> Message \<Rightarrow> GlobalMQ \<times> MQ \<Rightarrow> error + GlobalMQ \<times> MQ" where
  "push this h0 t0 message (g, q) =
     (if lock_session q \<noteq> 0 \<and> session message = lock_session q
      then pushhead this h0 t0 message (g, q)
      else if \<not> in_array (queue q) (tail q) then Inl OutOfBounds
      else let q1 = q\<lparr>queue := (queue q)[nat (tail q) := Some message]\<rparr>;
               t = tail q1 + 1;
               q2 = q1\<lparr>tail := (if t \<ge> cap q1 then 0 else t)\<rparr>
           in case (if head q2 = tail q2 then expand q2 else Inr q2) of
                Inl e \<Rightarrow> Inl e
              | Inr q3 \<Rightarrow>
                  if lock_session q3 = 0 \<and> in_global q3 = 0
                  then Inr (GlobalMQ_push t0 this g, q3\<lparr>in_global := MQ_IN_GLOBAL\<rparr>)
                  else Inr (g, q3))"

text \<open>\<open>MQ::lock\<close>: two assertions, then the two assignments.\<close>

definition lock :: "int \<Rightarrow> MQ \<Rightarrow> error + MQ" where
  "lock sess q =
     (if lock_session q \<noteq> 0 then Inl AssertionFailure
      else if in_global q \<noteq> MQ_IN_GLOBAL then Inl AssertionFailure
      else Inr (q\<lparr>in_global := MQ_DISPATCHING, lock_session := sess\<rparr>))"

definition mark_release :: "MQ \<Rightarrow> error + MQ" where
  "mark_release q = (if m_release q \<noteq> 0 then Inl AssertionFailure else Inr (q\<lparr>m_release := 1\<rparr>))"

text \<open>
  The constants \<open>HANDLE_REMOTE_SHIFT\<close>, \<open>PTYPE_MULTICAST\<close> and \<open>HANDLE_MASK\<close> come from
  \<open>fibernet.h\<close> and \<open>harbor.h\<close>, which are not part of the sources at hand: they are
  parameters, collected in a record.
\<close>

record harbor =
  HANDLE_REMOTE_SHIFT :: nat
  PTYPE_MULTICAST :: int
  HANDLE_MASK :: "64 word"

text \<open>What the teardown does to payloads: the multicast callback, or \<open>free\<close>.\<close>

datatype event = Multicast_dispatch nat | Free nat

text \<open>
  The loop of \<open>MQ::drop_queue\<close>, \<open>while(!pop(&msg)) { ++s; ... }\<close>. Its body runs when \<open>pop\<close>
  returned \<open>false\<close>, that is when \<open>msg\<close> was not written: \<open>msg\<close> is the local
  \<open>struct Message msg;\<close> with its indeterminate content, the parameter \<open>msg\<close> here. The loop
  ends when \<open>pop\<close> returns \<open>true\<close>. It need not end, so the result is an \<open>option\<close>.
\<close>

partial_function (option) drop_queue_loop ::
  "harbor \<Rightarrow> Message \<Rightarrow> MQ \<Rightarrow> int \<Rightarrow> event list \<Rightarrow> (error + MQ \<times> int \<times> event list) option" where
  [code]: "drop_queue_loop hb msg q s ev =
     (case pop q of
        Inl e \<Rightarrow> Some (Inl e)
      | Inr r \<Rightarrow>
          (case snd r of
             Some m \<Rightarrow> Some (Inr (fst r, s, ev))
           | None \<Rightarrow>
               if sint (ucast (drop_bit (HANDLE_REMOTE_SHIFT hb) (sz msg)) :: 32 word) = PTYPE_MULTICAST hb
               then if sz msg AND HANDLE_MASK hb \<noteq> 0 then Some (Inl AssertionFailure)
                    else drop_queue_loop hb msg (fst r) (s + 1) (ev @ [Multicast_dispatch (data msg)])
               else drop_queue_loop hb msg (fst r) (s + 1) (ev @ [Free (data msg)])))"

text \<open>
  \<open>MQ::drop_queue\<close>: the loop, then \<open>delete this\<close>, then \<open>return s\<close>. The object does not
  exist afterwards, so the result is the count and the events.
\<close>

definition drop_queue :: "harbor \<Rightarrow> Message \<Rightarrow> MQ \<Rightarrow> (error + int \<times> event list) option" where
  "drop_queue hb msg q =
     (case drop_queue_loop hb msg q 0 [] of
        None \<Rightarrow> None
      | Some (Inl e) \<Rightarrow> Some (Inl e)
      | Some (Inr (q', s, ev)) \<Rightarrow> Some (Inr (s, ev)))"

text \<open>
  \<open>MQ::release\<close>. The mailbox of the result is \<open>None\<close> once \<open>drop_queue\<close> has deleted it.
\<close>

fun release ::
  "harbor \<Rightarrow> Message \<Rightarrow> mqref \<Rightarrow> 32 word \<Rightarrow> GlobalMQ \<times> MQ \<Rightarrow>
     (error + GlobalMQ \<times> MQ option \<times> int \<times> event list) option" where
  "release hb msg this t0 (g, q) =
     (if m_release q \<noteq> 0
      then (case drop_queue hb msg q of
              None \<Rightarrow> None
            | Some (Inl e) \<Rightarrow> Some (Inl e)
            | Some (Inr (n, ev)) \<Rightarrow> Some (Inr (g, None, n, ev)))
      else Some (Inr (GlobalMQ_push t0 this g, Some q, 0, [])))"

declare pushglobal.simps [simp del] pushhead.simps [simp del] push.simps [simp del]
  release.simps [simp del]

subsection \<open>The ring as a list\<close>

text \<open>
  The ring invariant of a mailbox: the cursors are indices of the buffer, and the buffer
  has \<open>cap\<close> cells.
\<close>

definition mq_inv :: "MQ \<Rightarrow> bool" where
  "mq_inv q = (0 < cap q \<and> 0 \<le> head q \<and> head q < cap q \<and> 0 \<le> tail q \<and> tail q < cap q
                \<and> length (queue q) = nat (cap q))"

text \<open>The number of queued messages, and the queued cells from the head to the tail.\<close>

definition count :: "MQ \<Rightarrow> nat" where
  "count q = nat ((tail q - head q) mod cap q)"

text \<open>\<open>ring xs c h n\<close>: the \<open>n\<close> cells of \<open>xs\<close> from index \<open>h\<close> on, wrapping at \<open>c\<close>.\<close>

definition ring :: "cell list \<Rightarrow> int \<Rightarrow> int \<Rightarrow> nat \<Rightarrow> cell list" where
  "ring xs c h n = map (\<lambda>i. xs ! nat ((h + int i) mod c)) [0..<n]"

definition contents :: "MQ \<Rightarrow> cell list" where
  "contents q = ring (queue q) (cap q) (head q) (count q)"

text \<open>The state after the tail insertion of \<open>push\<close>, before the test \<open>head == tail\<close>.\<close>

definition appended :: "Message \<Rightarrow> MQ \<Rightarrow> MQ" where
  "appended m q = q\<lparr>queue := (queue q)[nat (tail q) := Some m],
                     tail := (if tail q + 1 \<ge> cap q then 0 else tail q + 1)\<rparr>"

text \<open>The mailbox after the tail path of \<open>push\<close>, membership aside.\<close>

definition grown :: "Message \<Rightarrow> MQ \<Rightarrow> MQ" where
  "grown m q =
     (if head q = tail (appended m q)
      then (appended m q)\<lparr>head := 0, tail := cap q, cap := cap q * 2,
             queue := ring (queue (appended m q)) (cap q) (head q) (nat (cap q)) @ replicate (nat (cap q)) None\<rparr>
      else appended m q)"

text \<open>
  A caller that pushes a list of messages, each call with its own indeterminate locals,
  and a caller that pops up to \<open>n\<close> times, stopping when \<open>pop\<close> returns \<open>false\<close>.
\<close>

fun pushes :: "mqref \<Rightarrow> (int \<times> 32 word \<times> Message) list \<Rightarrow> GlobalMQ \<times> MQ \<Rightarrow> error + GlobalMQ \<times> MQ" where
  "pushes this [] s = Inr s"
| "pushes this (j # js) s =
     (case push this (fst j) (fst (snd j)) (snd (snd j)) s of
        Inl e \<Rightarrow> Inl e
      | Inr s' \<Rightarrow> pushes this js s')"

fun pops :: "nat \<Rightarrow> MQ \<Rightarrow> error + MQ \<times> cell list" where
  "pops 0 q = Inr (q, [])"
| "pops (Suc n) q =
     (case pop q of
        Inl e \<Rightarrow> Inl e
      | Inr r \<Rightarrow>
          (case snd r of
             None \<Rightarrow> Inr (fst r, [])
           | Some c \<Rightarrow>
               (case pops n (fst r) of
                  Inl e \<Rightarrow> Inl e
                | Inr r' \<Rightarrow> Inr (fst r', c # snd r'))))"

text \<open>The mailbox after a successful \<open>pop\<close>.\<close>

definition popped :: "MQ \<Rightarrow> MQ" where
  "popped q = q\<lparr>head := (if head q + 1 \<ge> cap q then 0 else head q + 1), in_global := 0\<rparr>"

subsection \<open>Presence in the global queue, and concrete inputs\<close>

text \<open>
  A reference is present in the global queue when a slot whose readiness flag is set holds
  it: this is what \<open>GlobalMQ::pop\<close> looks at. \<open>queued_iff_present\<close> is the invariant as the
  specification words it for the mailbox at address \<open>this\<close>.
\<close>

definition present :: "GlobalMQ \<Rightarrow> mqref \<Rightarrow> bool" where
  "present g r = (\<exists>i < MAX_GLOBAL_MQ. g_flag g i \<and> g_queue g i = r)"

definition queued_iff_present :: "mqref \<Rightarrow> GlobalMQ \<times> MQ \<Rightarrow> bool" where
  "queued_iff_present this s = ((in_global (snd s) = MQ_IN_GLOBAL) = present (fst s) this)"

text \<open>
  Concrete inputs: four messages (\<open>reply7\<close> belongs to session 7), a new global queue
  whose array is filled with \<open>NULL\<close>, example values for the constants of \<open>harbor.h\<close>, the
  mailbox holding \<open>msgA\<close> alone, the empty mailbox left when that message is popped, the
  mailbox holding \<open>msgB\<close> and \<open>msgC\<close> and locked by session 7, the mailbox \<open>scrambled\<close>
  that \<open>push\<close> makes of it when the local of \<open>pushhead\<close> holds 3, a mailbox of capacity
  \<open>2^30\<close> with one free cell, 64 messages told apart by their \<open>data\<close>, and an empty mailbox
  of capacity 128.
\<close>

definition msgA :: Message where "msgA = \<lparr>source = 1, session = 0, data = 100, sz = 8\<rparr>"

definition msgB :: Message where "msgB = \<lparr>source = 1, session = 0, data = 200, sz = 8\<rparr>"

definition msgC :: Message where "msgC = \<lparr>source = 1, session = 0, data = 300, sz = 8\<rparr>"

definition reply7 :: Message where "reply7 = \<lparr>source = 2, session = 7, data = 400, sz = 8\<rparr>"

definition no_refs :: "nat \<Rightarrow> mqref" where "no_refs = (\<lambda>_. NULL)"

definition fresh_global :: GlobalMQ where "fresh_global = GlobalMQ_new no_refs"

definition harbor0 :: harbor where
  "harbor0 = \<lparr>HANDLE_REMOTE_SHIFT = 24, PTYPE_MULTICAST = 2, HANDLE_MASK = 0xFFFFFF\<rparr>"

definition one_msg :: MQ where
  "one_msg = \<lparr>m_handle = 1, cap = 64, head = 0, tail = 1, m_release = 0, lock_session = 0,
     in_global = MQ_IN_GLOBAL, queue = Some msgA # replicate 63 None\<rparr>"

definition idle :: MQ where
  "idle = one_msg\<lparr>head := 1, in_global := 0\<rparr>"

definition locked_BC :: MQ where
  "locked_BC = \<lparr>m_handle = 1, cap = 64, head = 0, tail = 2, m_release = 0, lock_session = 7,
     in_global = MQ_DISPATCHING, queue = Some msgB # Some msgC # replicate 62 None\<rparr>"

definition scrambled :: MQ where
  "scrambled = \<lparr>m_handle = 1, cap = 128, head = 0, tail = 63, m_release = 0, lock_session = 0,
     in_global = MQ_DISPATCHING,
     queue = Some msgB # Some msgC # replicate 125 None @ [Some reply7]\<rparr>"

definition huge :: MQ where
  "huge = \<lparr>m_handle = 1, cap = 1073741824, head = 0, tail = 1073741823, m_release = 0,
     lock_session = 0, in_global = MQ_IN_GLOBAL, queue = replicate 1073741824 (Some msgA)\<rparr>"

definition numbered :: "nat \<Rightarrow> Message" where
  "numbered i = \<lparr>source = 1, session = 0, data = i, sz = 8\<rparr>"

definition batch :: "(int \<times> 32 word \<times> Message) list" where
  "batch = map (\<lambda>i. (0, 0, numbered i)) [0..<64]"

definition wide :: MQ where
  "wide = \<lparr>m_handle = 1, cap = 128, head = 0, tail = 0, m_release = 0, lock_session = 0,
     in_global = MQ_IN_GLOBAL, queue = replicate 128 None\<rparr>"

section \<open>Properties\<close>

subsection \<open>Auxiliary facts\<close>

lemma c_rem_mod: "0 \<le> a \<Longrightarrow> 0 < b \<Longrightarrow> c_rem a b = a mod b"
  by (cases "a = 0") (simp_all add: c_rem_def)

lemma expand_inv:
  assumes "mq_inv q" and "cap q * 2 \<le> INT_MAX"
  shows "expand q = Inr (q\<lparr>head := 0, tail := cap q, cap := cap q * 2,
           queue := ring (queue q) (cap q) (head q) (nat (cap q)) @ replicate (nat (cap q)) None\<rparr>)"
proof -
  have c: "0 < cap q" and h: "0 \<le> head q" and l: "length (queue q) = nat (cap q)"
    using assms by (simp_all add: mq_inv_def)
  have r: "c_rem (head q + int i) (cap q) = (head q + int i) mod cap q" for i
    using c h by (simp add: c_rem_mod)
  have b: "in_array (queue q) ((head q + int i) mod cap q)" for i
    using c l by (simp add: in_array_def nat_less_iff)
  have o: "\<not> (cap q * 2 > INT_MAX \<or> cap q * 2 < INT_MIN)"
    using c assms(2) by (simp add: INT_MIN_def)
  show ?thesis
    using c by (simp only: expand_def o if_False) (simp add: r b ring_def list_ex_iff)
qed

lemma expand_overflow: "cap q * 2 > INT_MAX \<Longrightarrow> expand q = Inl IntOverflow"
  by (simp add: expand_def)

lemma ring_snoc:
  assumes "0 < c" "0 \<le> h" "h < c" "0 \<le> t" "t < c" "length xs = nat c"
    and n: "n = nat ((t - h) mod c)"
  shows "ring (xs[nat t := x]) c h (Suc n) = ring xs c h n @ [x]"
proof -
  have tn: "(h + int n) mod c = t"
  proof -
    have "(h + int n) mod c = (h + (t - h) mod c) mod c"
      using assms by simp
    also have "\<dots> = (h + (t - h)) mod c"
      by (simp add: mod_add_right_eq)
    finally show ?thesis using assms by simp
  qed
  have ne: "(h + int i) mod c \<noteq> t" if "i < n" for i
  proof
    assume e: "(h + int i) mod c = t"
    have "(t - h) mod c = ((h + int i) mod c - h) mod c" using e by simp
    also have "\<dots> = (h + int i - h) mod c" by (simp add: mod_diff_left_eq)
    also have "\<dots> = int i mod c" by simp
    also have "\<dots> = int i"
    proof -
      have "int n < c" using assms by (simp add: n)
      then show ?thesis using that by simp
    qed
    finally have "int n = int i" using assms by (simp add: n)
    then show False using that by simp
  qed
  have "map (\<lambda>i. xs[nat t := x] ! nat ((h + int i) mod c)) [0..<n]
        = map (\<lambda>i. xs ! nat ((h + int i) mod c)) [0..<n]"
  proof (rule map_cong[OF refl])
    fix i assume "i \<in> set [0..<n]"
    then have "i < n" by simp
    then have "(h + int i) mod c \<noteq> t" by (rule ne)
    moreover have "0 \<le> (h + int i) mod c" using assms by simp
    ultimately have "nat ((h + int i) mod c) \<noteq> nat t" using \<open>0 \<le> t\<close> by linarith
    then show "xs[nat t := x] ! nat ((h + int i) mod c) = xs ! nat ((h + int i) mod c)"
      by simp
  qed
  moreover have "xs[nat t := x] ! nat ((h + int n) mod c) = x"
    unfolding tn using \<open>0 \<le> t\<close> \<open>t < c\<close> \<open>length xs = nat c\<close> by (simp add: nat_less_iff)
  ultimately show ?thesis by (simp add: ring_def)
qed

lemma ring_append_prefix:
  assumes "int (length ys) \<le> c"
  shows "ring (ys @ zs) c 0 (length ys) = ys"
proof -
  have "map (\<lambda>i. (ys @ zs) ! nat (int i mod c)) [0..<length ys] = map (\<lambda>i. ys ! i) [0..<length ys]"
  proof (rule map_cong[OF refl])
    fix i assume "i \<in> set [0..<length ys]"
    then have i: "i < length ys" by simp
    then have "int i mod c = int i" using assms by simp
    then show "(ys @ zs) ! nat (int i mod c) = ys ! i" using i by (simp add: nth_append)
  qed
  then show ?thesis by (simp add: ring_def map_nth)
qed

lemma length_ring: "length (ring xs c h n) = n"
  by (simp add: ring_def)

lemma push_tail_unfold:
  assumes "mq_inv q" and "\<not> (lock_session q \<noteq> 0 \<and> session m = lock_session q)"
  shows "push this h0 t0 m (g, q) =
           (case (if head q = tail (appended m q) then expand (appended m q) else Inr (appended m q)) of
              Inl e \<Rightarrow> Inl e
            | Inr q3 \<Rightarrow>
                if lock_session q3 = 0 \<and> in_global q3 = 0
                then Inr (GlobalMQ_push t0 this g, q3\<lparr>in_global := MQ_IN_GLOBAL\<rparr>)
                else Inr (g, q3))"
proof -
  have "in_array (queue q) (tail q)"
    using assms(1) by (simp add: mq_inv_def in_array_def nat_less_iff)
  then show ?thesis
    by (subst push.simps, subst if_not_P[OF assms(2)]) (simp add: Let_def appended_def)
qed

lemma appended_inv: "mq_inv q \<Longrightarrow> mq_inv (appended m q)"
  by (simp add: mq_inv_def appended_def)

lemma appended_tail: "mq_inv q \<Longrightarrow> tail (appended m q) = (tail q + 1) mod cap q"
  by (cases "tail q + 1 = cap q") (simp_all add: mq_inv_def appended_def)

lemma count_less: "mq_inv q \<Longrightarrow> int (count q) < cap q"
  by (simp add: mq_inv_def count_def)

lemma count_appended:
  assumes "mq_inv q"
  shows "(tail (appended m q) - head q) mod cap q = (int (count q) + 1) mod cap q"
proof -
  have "(tail (appended m q) - head q) mod cap q = ((tail q + 1) mod cap q - head q) mod cap q"
    using assms by (simp add: appended_tail)
  also have "\<dots> = (tail q + 1 - head q) mod cap q"
    by (simp add: mod_diff_left_eq)
  also have "\<dots> = ((tail q - head q) + 1) mod cap q"
    by (simp add: algebra_simps)
  also have "\<dots> = ((tail q - head q) mod cap q + 1) mod cap q"
    by (simp add: mod_add_left_eq)
  finally show ?thesis using assms by (simp add: count_def mq_inv_def)
qed

lemma full_iff:
  assumes "mq_inv q"
  shows "head q = tail (appended m q) \<longleftrightarrow> int (count q) + 1 = cap q"
proof -
  have b: "0 \<le> head q" "head q < cap q" "0 \<le> tail (appended m q)" "tail (appended m q) < cap q"
    using assms appended_inv[OF assms, of m] by (simp_all add: mq_inv_def appended_def)
  have "head q = tail (appended m q) \<longleftrightarrow> (tail (appended m q) - head q) mod cap q = 0"
  proof (cases "head q \<le> tail (appended m q)")
    case True
    then have "(tail (appended m q) - head q) mod cap q = tail (appended m q) - head q"
      using b by simp
    then show ?thesis by auto
  next
    case False
    have "(tail (appended m q) - head q) mod cap q = (tail (appended m q) - head q + cap q) mod cap q"
      by simp
    also have "\<dots> = tail (appended m q) - head q + cap q"
      using b False by (intro mod_pos_pos_trivial) simp_all
    finally show ?thesis using b False by simp
  qed
  also have "\<dots> \<longleftrightarrow> (int (count q) + 1) mod cap q = 0"
    by (simp add: count_appended[OF assms])
  also have "\<dots> \<longleftrightarrow> int (count q) + 1 = cap q"
  proof (cases "int (count q) + 1 = cap q")
    case True
    then show ?thesis by simp
  next
    case False
    then have "int (count q) + 1 < cap q" using count_less[OF assms] by simp
    then have "(int (count q) + 1) mod cap q = int (count q) + 1" by simp
    then show ?thesis using False by simp
  qed
  finally show ?thesis .
qed

lemma push_tail_grown:
  assumes "mq_inv q" and "\<not> (lock_session q \<noteq> 0 \<and> session m = lock_session q)"
  shows "push this h0 t0 m (g, q) =
           (if int (count q) + 1 = cap q \<and> cap q * 2 > INT_MAX then Inl IntOverflow
            else if lock_session q = 0 \<and> in_global q = 0
            then Inr (GlobalMQ_push t0 this g, (grown m q)\<lparr>in_global := MQ_IN_GLOBAL\<rparr>)
            else Inr (g, grown m q))"
proof -
  have f: "lock_session (grown m q) = lock_session q" "in_global (grown m q) = in_global q"
    by (simp_all add: grown_def appended_def)
  have ca: "cap (appended m q) = cap q" by (simp add: appended_def)
  show ?thesis
  proof (cases "head q = tail (appended m q)")
    case True
    then have full: "int (count q) + 1 = cap q" using full_iff[OF assms(1)] by simp
    show ?thesis
    proof (cases "cap q * 2 > INT_MAX")
      case over: True
      have "expand (appended m q) = Inl IntOverflow"
        by (rule expand_overflow) (simp add: ca over)
      with True full over show ?thesis
        by (simp add: push_tail_unfold[OF assms])
    next
      case fits: False
      then have "cap (appended m q) * 2 \<le> INT_MAX" by (simp add: ca)
      from expand_inv[OF appended_inv[OF assms(1), of m] this]
      have e: "expand (appended m q) = Inr ((appended m q)\<lparr>head := 0, tail := cap q, cap := cap q * 2,
             queue := ring (queue (appended m q)) (cap q) (head q) (nat (cap q)) @ replicate (nat (cap q)) None\<rparr>)"
        by (simp add: appended_def)
      have "grown m q = (appended m q)\<lparr>head := 0, tail := cap q, cap := cap q * 2,
             queue := ring (queue (appended m q)) (cap q) (head q) (nat (cap q)) @ replicate (nat (cap q)) None\<rparr>"
        using True by (simp add: grown_def)
      with True e f fits show ?thesis
        by (simp add: push_tail_unfold[OF assms])
    qed
  next
    case False
    then have nf: "int (count q) + 1 \<noteq> cap q" using full_iff[OF assms(1), of m] by simp
    have "grown m q = appended m q" using False by (simp add: grown_def)
    with False f nf show ?thesis
      by (simp add: push_tail_unfold[OF assms])
  qed
qed

lemma grown_fields:
  "lock_session (grown m q) = lock_session q" "in_global (grown m q) = in_global q"
  "m_release (grown m q) = m_release q" "m_handle (grown m q) = m_handle q"
  by (simp_all add: grown_def appended_def)

lemma grown_cap:
  assumes "mq_inv q"
  shows "cap (grown m q) = (if int (count q) + 1 = cap q then cap q * 2 else cap q)"
  using full_iff[OF assms, of m] by (simp add: grown_def) (simp add: appended_def)

lemma grown_inv:
  assumes "mq_inv q"
  shows "mq_inv (grown m q)"
proof (cases "head q = tail (appended m q)")
  case True
  then show ?thesis using assms by (simp add: grown_def mq_inv_def length_ring)
next
  case False
  then show ?thesis using appended_inv[OF assms, of m] by (simp add: grown_def)
qed

lemma grown_contents:
  assumes "mq_inv q"
  shows "contents (grown m q) = contents q @ [Some m]"
proof -
  have b: "0 < cap q" "0 \<le> head q" "head q < cap q" "0 \<le> tail q" "tail q < cap q"
    "length (queue q) = nat (cap q)"
    using assms by (simp_all add: mq_inv_def)
  have snoc: "ring ((queue q)[nat (tail q) := Some m]) (cap q) (head q) (Suc (count q))
                = contents q @ [Some m]"
    unfolding contents_def by (rule ring_snoc[OF b]) (simp add: count_def)
  show ?thesis
  proof (cases "head q = tail (appended m q)")
    case True
    then have full: "int (count q) + 1 = cap q" using full_iff[OF assms] by simp
    then have n: "nat (cap q) = Suc (count q)" by simp
    let ?ys = "ring (queue (appended m q)) (cap q) (head q) (nat (cap q))"
    have g: "grown m q = (appended m q)\<lparr>head := 0, tail := cap q, cap := cap q * 2,
             queue := ?ys @ replicate (nat (cap q)) None\<rparr>"
      using True by (simp add: grown_def)
    have ly: "length ?ys = nat (cap q)" by (simp add: length_ring)
    have "count (grown m q) = nat (cap q)"
      using b(1) by (simp add: g count_def)
    then have "contents (grown m q) = ring (?ys @ replicate (nat (cap q)) None) (cap q * 2) 0 (length ?ys)"
      by (simp add: contents_def g ly)
    also have "\<dots> = ?ys"
      using b(1) by (intro ring_append_prefix) (simp add: ly)
    also have "\<dots> = contents q @ [Some m]"
      using snoc by (simp add: n appended_def)
    finally show ?thesis .
  next
    case False
    then have nf: "int (count q) + 1 < cap q"
      using full_iff[OF assms, of m] count_less[OF assms] by simp
    have g: "grown m q = appended m q" using False by (simp add: grown_def)
    have "count (appended m q) = nat ((int (count q) + 1) mod cap q)"
      using count_appended[OF assms, of m] by (simp add: count_def) (simp add: appended_def)
    also have "\<dots> = Suc (count q)" using nf by simp
    finally have "contents (grown m q) = ring (queue (appended m q)) (cap q) (head q) (Suc (count q))"
      by (simp add: g contents_def) (simp add: appended_def)
    then show ?thesis using snoc by (simp add: appended_def)
  qed
qed

lemma pop_empty: "head q = tail q \<Longrightarrow> pop q = Inr (q, None)"
  by (simp add: pop_def)

lemma pop_nonempty:
  assumes "mq_inv q" and "head q \<noteq> tail q"
  shows "pop q = Inr (popped q, Some (queue q ! nat (head q)))"
proof -
  have "in_array (queue q) (head q)"
    using assms(1) by (simp add: mq_inv_def in_array_def nat_less_iff)
  then show ?thesis
    using assms(2) by (simp add: pop_def Let_def popped_def)
qed

lemma popped_head: "mq_inv q \<Longrightarrow> head (popped q) = (head q + 1) mod cap q"
  by (cases "head q + 1 = cap q") (simp_all add: mq_inv_def popped_def)

lemma popped_inv: "mq_inv q \<Longrightarrow> mq_inv (popped q)"
  by (simp add: mq_inv_def popped_def)

lemma count_zero_iff:
  assumes "mq_inv q"
  shows "count q = 0 \<longleftrightarrow> head q = tail q"
proof -
  have b: "0 < cap q" "0 \<le> head q" "head q < cap q" "0 \<le> tail q" "tail q < cap q"
    using assms by (simp_all add: mq_inv_def)
  have nn: "0 \<le> (tail q - head q) mod cap q" using b by simp
  have "(tail q - head q) mod cap q = 0 \<longleftrightarrow> head q = tail q"
  proof (cases "head q \<le> tail q")
    case True
    then have "(tail q - head q) mod cap q = tail q - head q" using b by simp
    then show ?thesis by auto
  next
    case False
    have "(tail q - head q) mod cap q = (tail q - head q + cap q) mod cap q" by simp
    also have "\<dots> = tail q - head q + cap q"
      using b False by (intro mod_pos_pos_trivial) simp_all
    finally show ?thesis using b False by simp
  qed
  then show ?thesis using nn by (simp add: count_def)
qed

lemma ring_Suc:
  "ring xs c h (Suc n) = xs ! nat (h mod c) # ring xs c ((h + 1) mod c) n"
proof -
  have "((h + 1) mod c + int i) mod c = (h + int (Suc i)) mod c" for i
  proof -
    have "((h + 1) mod c + int i) mod c = ((h + 1) + int i) mod c"
      by (simp add: mod_add_left_eq)
    then show ?thesis by (simp add: algebra_simps)
  qed
  then show ?thesis by (simp add: ring_def map_upt_Suc del: upt_Suc)
qed

lemma count_popped:
  assumes "mq_inv q" and "head q \<noteq> tail q"
  shows "count q = Suc (count (popped q))"
proof -
  have c: "0 < cap q" using assms by (simp add: mq_inv_def)
  have pos: "0 < int (count q)" using count_zero_iff[OF assms(1)] assms(2) by simp
  have "(tail q - head (popped q)) mod cap q = (tail q - (head q + 1) mod cap q) mod cap q"
    using assms by (simp add: popped_head)
  also have "\<dots> = (tail q - (head q + 1)) mod cap q"
    by (simp add: mod_diff_right_eq)
  also have "\<dots> = ((tail q - head q) - 1) mod cap q"
    by (simp add: algebra_simps)
  also have "\<dots> = ((tail q - head q) mod cap q - 1) mod cap q"
    by (simp add: mod_diff_left_eq)
  also have "\<dots> = (int (count q) - 1) mod cap q"
    using c by (simp add: count_def)
  also have "\<dots> = int (count q) - 1"
    using pos count_less[OF assms(1)] by simp
  finally have "count (popped q) = nat (int (count q) - 1)"
    by (simp add: count_def) (simp add: popped_def)
  then show ?thesis using pos by simp
qed

lemma popped_contents:
  assumes "mq_inv q" and "head q \<noteq> tail q"
  shows "contents q = queue q ! nat (head q) # contents (popped q)"
proof -
  have b: "0 \<le> head q" "head q < cap q" using assms by (simp_all add: mq_inv_def)
  have "contents q = ring (queue q) (cap q) (head q) (Suc (count (popped q)))"
    by (simp add: contents_def count_popped[OF assms])
  also have "\<dots> = queue q ! nat (head q mod cap q) # ring (queue q) (cap q) ((head q + 1) mod cap q) (count (popped q))"
    by (rule ring_Suc)
  also have "\<dots> = queue q ! nat (head q) # contents (popped q)"
    using b assms(1) by (simp add: contents_def popped_head[symmetric]) (simp add: popped_def)
  finally show ?thesis .
qed

lemma contents_empty_iff: "mq_inv q \<Longrightarrow> contents q = [] \<longleftrightarrow> head q = tail q"
  using count_zero_iff[of q] by (simp add: contents_def ring_def)

lemma length_contents: "length (contents q) = count q"
  by (simp add: contents_def ring_def)

lemma pops_contents:
  assumes "mq_inv q" and "n = length (contents q)"
  shows "\<exists>q'. pops n q = Inr (q', contents q) \<and> mq_inv q' \<and> contents q' = []"
  using assms
proof (induction n arbitrary: q)
  case 0
  then show ?case by simp
next
  case (Suc n)
  then have ne: "head q \<noteq> tail q"
    using contents_empty_iff[of q] by auto
  have c: "contents q = queue q ! nat (head q) # contents (popped q)"
    by (rule popped_contents[OF Suc.prems(1) ne])
  then have "n = length (contents (popped q))" using Suc.prems(2) by simp
  from Suc.IH[OF popped_inv[OF Suc.prems(1)] this]
  obtain q' where "pops n (popped q) = Inr (q', contents (popped q))" "mq_inv q'" "contents q' = []"
    by blast
  then show ?case
    using c by (simp add: pop_nonempty[OF Suc.prems(1) ne])
qed

lemma GlobalMQ_push_eq:
  "GlobalMQ_push t0 mq g = g\<lparr>g_queue := (g_queue g)(GP t0 := mq), g_flag := (g_flag g)(GP t0 := True)\<rparr>"
  by (simp add: GlobalMQ_push_def sync_fetch_and_add_def Let_def)

lemma GP_less: "GP p < MAX_GLOBAL_MQ"
  by (simp add: GP_def MAX_GLOBAL_MQ_def)

lemma present_push: "present (GlobalMQ_push t0 r g) r"
  unfolding present_def
  by (rule exI[of _ "GP t0"]) (simp add: GlobalMQ_push_eq GP_less)

lemma not_present_fresh: "\<not> present (GlobalMQ_new mem) r"
  by (simp add: present_def GlobalMQ_new_def)

lemma mq_inv_in_global [simp]: "mq_inv (q\<lparr>in_global := x\<rparr>) = mq_inv q"
  by (simp add: mq_inv_def)

lemma contents_in_global [simp]: "contents (q\<lparr>in_global := x\<rparr>) = contents q"
  by (simp add: contents_def count_def)



lemma pushes_tail:
  assumes "mq_inv q" and "\<forall>j \<in> set js. lock_session q = 0 \<or> session (snd (snd j)) \<noteq> lock_session q"
  shows "(\<exists>g' q'. pushes this js (g, q) = Inr (g', q') \<and> mq_inv q' \<and> lock_session q' = lock_session q
            \<and> contents q' = contents q @ map (Some \<circ> snd \<circ> snd) js
            \<and> (in_global q \<noteq> 0 \<longrightarrow> g' = g \<and> in_global q' = in_global q)
            \<and> (int (length (contents q) + length js) < cap q \<longrightarrow> cap q' = cap q))
       \<or> (pushes this js (g, q) = Inl IntOverflow \<and> INT_MAX < 2 * int (length (contents q) + length js))"
  using assms
proof (induction js arbitrary: g q)
  case Nil
  then show ?case by simp
next
  case (Cons j js)
  let ?m = "snd (snd j)"
  have nl: "\<not> (lock_session q \<noteq> 0 \<and> session ?m = lock_session q)"
    using Cons.prems(2) by auto
  note pt = push_tail_grown[OF Cons.prems(1) nl, of this "fst j" "fst (snd j)" g]
  show ?case
  proof (cases "int (count q) + 1 = cap q \<and> cap q * 2 > INT_MAX")
    case True
    then have "push this (fst j) (fst (snd j)) ?m (g, q) = Inl IntOverflow"
      using pt by simp
    then have "pushes this (j # js) (g, q) = Inl IntOverflow" by simp
    moreover have "INT_MAX < 2 * int (length (contents q) + length (j # js))"
      using True by (simp add: length_contents)
    ultimately show ?thesis by blast
  next
    case False
    let ?c = "lock_session q = 0 \<and> in_global q = 0"
    let ?q1 = "if ?c then (grown ?m q)\<lparr>in_global := MQ_IN_GLOBAL\<rparr> else grown ?m q"
    let ?g1 = "if ?c then GlobalMQ_push (fst (snd j)) this g else g"
    have p: "push this (fst j) (fst (snd j)) ?m (g, q) = Inr (?g1, ?q1)"
      using pt False by simp
    have i1: "mq_inv ?q1" using grown_inv[OF Cons.prems(1), of ?m] by simp
    have l1: "lock_session ?q1 = lock_session q" by (simp add: grown_fields)
    have s1: "\<forall>j \<in> set js. lock_session ?q1 = 0 \<or> session (snd (snd j)) \<noteq> lock_session ?q1"
      unfolding l1 using Cons.prems(2) by auto
    have c1: "contents ?q1 = contents q @ [Some ?m]"
      using grown_contents[OF Cons.prems(1), of ?m] by simp
    have t1: "length (contents ?q1) + length js = length (contents q) + length (j # js)"
      by (simp add: c1)
    have g1: "in_global q \<noteq> 0 \<Longrightarrow> in_global ?q1 = in_global q \<and> ?g1 = g"
      by (simp add: grown_fields)
    have k1: "cap ?q1 = (if int (count q) + 1 = cap q then cap q * 2 else cap q)"
      using grown_cap[OF Cons.prems(1), of ?m] by simp
    from Cons.IH[OF i1 s1, of ?g1]
    consider (ok) g' q' where "pushes this js (?g1, ?q1) = Inr (g', q')" "mq_inv q'"
        "lock_session q' = lock_session ?q1"
        "contents q' = contents ?q1 @ map (Some \<circ> snd \<circ> snd) js"
        "in_global ?q1 \<noteq> 0 \<longrightarrow> g' = ?g1 \<and> in_global q' = in_global ?q1"
        "int (length (contents ?q1) + length js) < cap ?q1 \<longrightarrow> cap q' = cap ?q1"
      | (over) "pushes this js (?g1, ?q1) = Inl IntOverflow"
        "INT_MAX < 2 * int (length (contents ?q1) + length js)"
      by blast
    then show ?thesis
    proof cases
      case ok
      have "pushes this (j # js) (g, q) = Inr (g', q')"
        using p ok(1) by simp
      moreover have "contents q' = contents q @ map (Some \<circ> snd \<circ> snd) (j # js)"
        using ok(4) c1 by simp
      moreover have "in_global q \<noteq> 0 \<longrightarrow> g' = g \<and> in_global q' = in_global q"
        using ok(5) g1 by auto
      moreover have "int (length (contents q) + length (j # js)) < cap q \<longrightarrow> cap q' = cap q"
      proof
        assume a: "int (length (contents q) + length (j # js)) < cap q"
        then have "int (count q) + 1 \<noteq> cap q" by (simp add: length_contents)
        then have "cap ?q1 = cap q" using k1 by simp
        moreover have "int (length (contents ?q1) + length js) < cap q"
          using a c1 by simp
        ultimately show "cap q' = cap q" using ok(6) by simp
      qed
      moreover have "lock_session q' = lock_session q" using ok(3) l1 by simp
      ultimately show ?thesis using ok(2) by blast
    next
      case over
      have "pushes this (j # js) (g, q) = Inl IntOverflow"
        using p over(1) by simp
      then show ?thesis using over(2) unfolding t1 by blast
    qed
  qed
qed

lemma pushes_tail_bounded:
  assumes "mq_inv q" and "\<forall>j \<in> set js. lock_session q = 0 \<or> session (snd (snd j)) \<noteq> lock_session q"
    and "2 * int (length (contents q) + length js) \<le> INT_MAX"
  shows "\<exists>g' q'. pushes this js (g, q) = Inr (g', q') \<and> mq_inv q' \<and> lock_session q' = lock_session q
            \<and> contents q' = contents q @ map (Some \<circ> snd \<circ> snd) js
            \<and> (in_global q \<noteq> 0 \<longrightarrow> g' = g \<and> in_global q' = in_global q)
            \<and> (int (length (contents q) + length js) < cap q \<longrightarrow> cap q' = cap q)"
  using pushes_tail[OF assms(1,2), of this g] assms(3) by auto

lemma drop_queue_loop_nonempty:
  assumes "mq_inv q" and "head q \<noteq> tail q"
  shows "drop_queue_loop hb msg q s ev = Some (Inr (popped q, s, ev))"
  by (subst drop_queue_loop.simps) (simp add: pop_nonempty[OF assms])

lemma drop_queue_loop_empty:
  assumes "drop_queue_loop hb msg q s ev = Some y"
  shows "head q = tail q \<longrightarrow> y = Inl AssertionFailure"
proof (rule drop_queue_loop.raw_induct[where P = "\<lambda>hb msg q s ev y. head q = tail q \<longrightarrow> y = Inl AssertionFailure", OF _ assms], goal_cases)
  case (1 f hb msg q s ev y)
  show ?case
  proof
    assume e: "head q = tail q"
    show "y = Inl AssertionFailure"
      using 1 e by (auto simp add: pop_empty[OF e] split: if_splits)
  qed
qed

lemma release_nonempty:
  assumes "mq_inv q" and "head q \<noteq> tail q" and "m_release q \<noteq> 0"
  shows "release hb msg this t0 (g, q) = Some (Inr (g, None, 0, []))"
  using assms(3) by (simp add: release.simps drop_queue_def drop_queue_loop_nonempty[OF assms(1,2)])

lemma release_empty:
  assumes "head q = tail q" and "m_release q \<noteq> 0"
  shows "release hb msg this t0 (g, q) \<noteq> Some (Inr r)"
proof
  assume a: "release hb msg this t0 (g, q) = Some (Inr r)"
  then obtain y where y: "drop_queue_loop hb msg q 0 [] = Some y" and ny: "y \<noteq> Inl AssertionFailure"
    using assms(2) by (auto simp add: release.simps drop_queue_def split: option.splits sum.splits)
  from drop_queue_loop_empty[OF y] assms(1) ny show False by simp
qed

lemma release_unmarked:
  "m_release q = 0 \<Longrightarrow> release hb msg this t0 (g, q) = Some (Inr (GlobalMQ_push t0 this g, Some q, 0, []))"
  by (simp add: release.simps)

lemma GlobalMQ_push_tail: "g_tail (GlobalMQ_push t0 mq g) = g_tail g"
  by (simp add: GlobalMQ_push_eq)

lemma GlobalMQ_pop_head: "g_head (fst (GlobalMQ_pop h0 g)) = g_head g"
  by (simp add: GlobalMQ_pop_def sync_bool_compare_and_swap_def Let_def)

lemma pushhead_member_head:
  assumes "pushhead this h0 t0 m (g, q) = Inr (g', q')"
  shows "head q' = head q \<or> head q' = 0"
  using assms
  by (auto simp add: pushhead.simps Let_def  expand_def split: if_splits sum.splits)

lemma push_membership:
  assumes "push this h0 t0 m (g, q) = Inr (g', q')"
  shows "(g' = g \<and> in_global q' = in_global q)
       \<or> (g' = GlobalMQ_push t0 this g \<and> in_global q \<noteq> MQ_IN_GLOBAL \<and> in_global q' = MQ_IN_GLOBAL)"
  using assms
  by (auto simp add: push.simps pushhead.simps Let_def expand_def MQ_IN_GLOBAL_def MQ_LOCKED_def MQ_DISPATCHING_def
      split: if_splits sum.splits)

lemma pushglobal_result:
  assumes "in_global q \<noteq> 0"
  shows "pushglobal this t0 (g, q) =
           (if lock_session q = 0
            then Inr (GlobalMQ_push t0 this g, q\<lparr>in_global := MQ_IN_GLOBAL\<rparr>)
            else Inr (g, if in_global q = MQ_DISPATCHING then q\<lparr>in_global := MQ_LOCKED\<rparr> else q))"
  using assms by (simp add: pushglobal.simps Let_def)

lemma pushglobal_membership:
  assumes "pushglobal this t0 (g, q) = Inr (g', q')"
  shows "(lock_session q = 0 \<and> g' = GlobalMQ_push t0 this g \<and> in_global q' = MQ_IN_GLOBAL)
       \<or> (lock_session q \<noteq> 0 \<and> g' = g)"
  using assms by (auto simp add: pushglobal.simps Let_def split: if_splits)

lemma mq_inv_one_msg: "mq_inv one_msg"
  by (simp add: mq_inv_def one_msg_def)

lemma push_fresh: "push this h0 t0 msgA (g, MQ_new 1) = Inr (g, one_msg)"
  by (simp add: push.simps MQ_new_def DEFAULT_QUEUE_SIZE_def in_array_def Let_def one_msg_def
      MQ_IN_GLOBAL_def numeral_eq_Suc)

lemma pop_one_msg: "pop one_msg = Inr (idle, Some (Some msgA))"
  by (simp add: pop_def one_msg_def idle_def in_array_def Let_def)

lemma not_present_fresh_global: "\<not> present fresh_global r"
  by (simp add: fresh_global_def not_present_fresh)

lemma drop_queue_loop_empty_multicast:
  assumes "drop_queue_loop hb msg q s ev = Some y"
  shows "head q = tail q \<longrightarrow>
           sint (ucast (drop_bit (HANDLE_REMOTE_SHIFT hb) (sz msg)) :: 32 word) = PTYPE_MULTICAST hb"
proof (rule drop_queue_loop.raw_induct[where P = "\<lambda>hb msg q s ev y. head q = tail q \<longrightarrow>
           sint (ucast (drop_bit (HANDLE_REMOTE_SHIFT hb) (sz msg)) :: 32 word) = PTYPE_MULTICAST hb", OF _ assms], goal_cases)
  case (1 f hb msg q s ev y)
  show ?case
  proof
    assume e: "head q = tail q"
    show "sint (ucast (drop_bit (HANDLE_REMOTE_SHIFT hb) (sz msg)) :: 32 word) = PTYPE_MULTICAST hb"
      using 1 e by (auto simp add: pop_empty[OF e] split: if_splits)
  qed
qed

lemma release_empty_never_returns:
  assumes "head q = tail q" and "m_release q \<noteq> 0"
    and "sint (ucast (drop_bit (HANDLE_REMOTE_SHIFT hb) (sz msg)) :: 32 word) \<noteq> PTYPE_MULTICAST hb"
  shows "release hb msg this t0 (g, q) = None"
proof -
  have "drop_queue_loop hb msg q 0 [] = None"
  proof (cases "drop_queue_loop hb msg q 0 []")
    case None
    then show ?thesis .
  next
    case (Some y)
    from drop_queue_loop_empty_multicast[OF Some] assms(1,3) show ?thesis by simp
  qed
  then show ?thesis using assms(2) by (simp add: release.simps drop_queue_def)
qed

lemma mq_inv_wide: "mq_inv wide"
  by (simp add: mq_inv_def wide_def)

lemma contents_wide: "contents wide = []"
  by (simp add: contents_def count_def ring_def wide_def)

lemma locked_BC_reached:
  "\<exists>q1. pushes 9 [(0, 0, msgB), (0, 0, msgC)] (fresh_global, MQ_new 1) = Inr (fresh_global, q1)
       \<and> lock 7 q1 = Inr locked_BC"
  by (simp add: push.simps lock_def MQ_new_def DEFAULT_QUEUE_SIZE_def locked_BC_def
      in_array_def Let_def MQ_IN_GLOBAL_def numeral_eq_Suc)

lemma contents_locked_BC: "contents locked_BC = [Some msgB, Some msgC]"
  by (simp add: contents_def count_def ring_def locked_BC_def numeral_eq_Suc)

lemma expand_locked_BC:
  "\<exists>q1. expand locked_BC = Inr q1 \<and> head q1 = 0 \<and> tail q1 = 64 \<and> cap q1 = 128 \<and> length (queue q1) = 128
     \<and> in_global q1 = MQ_DISPATCHING"
proof -
  have "mq_inv locked_BC" "cap locked_BC * 2 \<le> INT_MAX"
    by (simp_all add: mq_inv_def locked_BC_def INT_MAX_def)
  from expand_inv[OF this] show ?thesis
    by (simp add: length_ring) (simp add: locked_BC_def)
qed

lemma push_reply_count:
  assumes "push 9 h0 0 reply7 (g, locked_BC) = Inr (g', q')"
  shows "count q' = 2 \<or> count q' = 63"
proof -
  have l: "lock_session locked_BC \<noteq> 0 \<and> session reply7 = lock_session locked_BC"
    by (simp add: locked_BC_def reply7_def)
  then have p: "pushhead 9 h0 0 reply7 (g, locked_BC) = Inr (g', q')"
    using assms by (simp add: push.simps)
  obtain q1 where e: "expand locked_BC = Inr q1" "head q1 = 0" "tail q1 = 64" "cap q1 = 128"
    using expand_locked_BC by blast
  show ?thesis
  proof (cases "(if h0 - 1 < 0 then cap locked_BC - 1 else h0 - 1) = tail locked_BC")
    case True
    then have "head q' = 0 \<and> tail q' = 63 \<and> cap q' = 128"
      using p e by (auto simp add: pushhead.simps Let_def split: if_splits)
    then show ?thesis by (simp add: count_def)
  next
    case False
    then have "head q' = 0 \<and> tail q' = 2 \<and> cap q' = 64"
      using p by (auto simp add: pushhead.simps Let_def locked_BC_def split: if_splits)
    then show ?thesis by (simp add: count_def)
  qed
qed

lemma push_reply_not_first:
  "case push 9 h0 0 reply7 (g, locked_BC) of
     Inl e \<Rightarrow> True
   | Inr s \<Rightarrow> contents (snd s) \<noteq> Some reply7 # contents locked_BC"
proof (cases "push 9 h0 0 reply7 (g, locked_BC)")
  case (Inl e)
  then show ?thesis by simp
next
  case (Inr s)
  obtain g' q' where s: "s = (g', q')" by (cases s)
  from push_reply_count[OF Inr[unfolded s]] have "length (contents q') \<noteq> 3"
    by (auto simp add: length_contents)
  then have "contents q' \<noteq> Some reply7 # contents locked_BC"
    by (auto simp add: contents_locked_BC)
  then show ?thesis using Inr s by simp
qed

section \<open>The claims\<close>

subsection \<open>C1: membership and presence in the global queue\<close>

text \<open>
  Claim C1 states an invariant: the membership of a mailbox is QUEUED
  (\<open>in_global == MQ_IN_GLOBAL\<close>) if and only if a reference to it is present in the global
  queue, established at construction and preserved by every operation. The code does not
  have it. Counterexample to C1: the constructor sets \<open>in_global\<close> to \<open>MQ_IN_GLOBAL\<close> and
  pushes nothing, so for a new mailbox and a new global queue the equivalence is false.
  Nor is it preserved: after one \<open>push\<close> and one \<open>pop\<close> the mailbox has membership 0 and is
  not present, so the equivalence holds; \<open>release\<close> (no release mark) then pushes a reference
  and leaves the membership at 0, so it fails again.
\<close>

theorem membership_invariant_counterexample:
  "\<not> queued_iff_present 9 (fresh_global, MQ_new 1)
   \<and> push 9 0 0 msgA (fresh_global, MQ_new 1) = Inr (fresh_global, one_msg)
   \<and> pop one_msg = Inr (idle, Some (Some msgA))
   \<and> queued_iff_present 9 (fresh_global, idle)
   \<and> release harbor0 msgA 9 0 (fresh_global, idle) = Some (Inr (GlobalMQ_push 0 9 fresh_global, Some idle, 0, []))
   \<and> \<not> queued_iff_present 9 (GlobalMQ_push 0 9 fresh_global, idle)"
proof -
  have 1: "\<not> queued_iff_present 9 (fresh_global, MQ_new 1)"
    by (simp add: queued_iff_present_def not_present_fresh_global MQ_new_def)
  have 4: "queued_iff_present 9 (fresh_global, idle)"
    by (simp add: queued_iff_present_def not_present_fresh_global idle_def MQ_IN_GLOBAL_def)
  have 5: "release harbor0 msgA 9 0 (fresh_global, idle) = Some (Inr (GlobalMQ_push 0 9 fresh_global, Some idle, 0, []))"
    by (rule release_unmarked) (simp add: idle_def one_msg_def)
  have 6: "\<not> queued_iff_present 9 (GlobalMQ_push 0 9 fresh_global, idle)"
    by (simp add: queued_iff_present_def present_push idle_def MQ_IN_GLOBAL_def)
  show ?thesis using 1 4 5 6 push_fresh pop_one_msg by simp
qed

text \<open>
  Claim C1 as amended: what each operation does to membership and to the global queue.
  The constructor sets the membership to \<open>MQ_IN_GLOBAL\<close>. A \<open>push\<close> that returns either leaves
  the global queue and the membership as they were, or it starts from a membership other
  than \<open>MQ_IN_GLOBAL\<close>, calls \<open>GlobalMQ::push(this)\<close> once and ends with membership
  \<open>MQ_IN_GLOBAL\<close>. A \<open>pushglobal\<close> that returns calls \<open>GlobalMQ::push(this)\<close> and ends with
  membership \<open>MQ_IN_GLOBAL\<close> when \<open>lock_session\<close> is 0, and leaves the global queue as it was
  otherwise. \<open>release\<close> without a release mark calls \<open>GlobalMQ::push(this)\<close> and does not
  change the mailbox. After \<open>GlobalMQ::push(this)\<close> a flagged slot holds the reference.
\<close>

theorem membership_per_operation:
  "in_global (MQ_new handle) = MQ_IN_GLOBAL
   \<and> (\<forall>g' q'. push this h0 t0 m (g, q) = Inr (g', q') \<longrightarrow>
         (g' = g \<and> in_global q' = in_global q)
         \<or> (g' = GlobalMQ_push t0 this g \<and> in_global q \<noteq> MQ_IN_GLOBAL \<and> in_global q' = MQ_IN_GLOBAL))
   \<and> (\<forall>g' q'. pushglobal this t0 (g, q) = Inr (g', q') \<longrightarrow>
         (lock_session q = 0 \<and> g' = GlobalMQ_push t0 this g \<and> in_global q' = MQ_IN_GLOBAL)
         \<or> (lock_session q \<noteq> 0 \<and> g' = g))
   \<and> (m_release q = 0 \<longrightarrow>
         release hb msg this t0 (g, q) = Some (Inr (GlobalMQ_push t0 this g, Some q, 0, [])))
   \<and> present (GlobalMQ_push t0 this g) this"
  using push_membership[of this h0 t0 m g q] pushglobal_membership[of this t0 g q]
    release_unmarked[of q hb msg this t0 g] present_push[of t0 this g]
  by (simp add: MQ_new_def)

text \<open>
  Witness for the amended C1: the idle mailbox (membership 0) is pushed to and enters the
  global queue; the mailbox \<open>one_msg\<close> (no lock session) is re-announced by \<open>pushglobal\<close>;
  the idle mailbox is released without a mark.
\<close>

theorem membership_per_operation_witness:
  "push 9 0 0 msgB (fresh_global, idle) = Inr (GlobalMQ_push 0 9 fresh_global, idle\<lparr>tail := 2, in_global := MQ_IN_GLOBAL, queue := (queue idle)[1 := Some msgB]\<rparr>)
   \<and> in_global idle \<noteq> MQ_IN_GLOBAL
   \<and> pushglobal 9 0 (fresh_global, one_msg) = Inr (GlobalMQ_push 0 9 fresh_global, one_msg)
   \<and> lock_session one_msg = 0
   \<and> m_release idle = 0
   \<and> release harbor0 msgA 9 0 (fresh_global, idle) = Some (Inr (GlobalMQ_push 0 9 fresh_global, Some idle, 0, []))
   \<and> present (GlobalMQ_push 0 9 fresh_global) 9"
proof -
  have p: "push 9 0 0 msgB (fresh_global, idle) = Inr (GlobalMQ_push 0 9 fresh_global, idle\<lparr>tail := 2, in_global := MQ_IN_GLOBAL, queue := (queue idle)[1 := Some msgB]\<rparr>)"
    by (simp add: push.simps idle_def one_msg_def in_array_def Let_def)
  have g: "pushglobal 9 0 (fresh_global, one_msg) = Inr (GlobalMQ_push 0 9 fresh_global, one_msg)"
    by (simp add: pushglobal.simps one_msg_def Let_def MQ_IN_GLOBAL_def MQ_DISPATCHING_def)
  have i: "in_global idle \<noteq> MQ_IN_GLOBAL" "lock_session one_msg = 0" "m_release idle = 0"
    by (simp_all add: idle_def one_msg_def MQ_IN_GLOBAL_def)
  show ?thesis
    using membership_per_operation[of 1 9 0 0 msgB fresh_global idle harbor0 msgA]
      membership_per_operation[of 1 9 0 0 msgB fresh_global one_msg harbor0 msgA] p g i
    by simp
qed

subsection \<open>C2: GlobalMQ::pop and the shared head counter\<close>

text \<open>
  Claim C2 says that a successful \<open>GlobalMQ::pop\<close> advances the shared head counter by one.
  The code evaluated: for every value \<open>h0\<close> of the local \<open>head\<close> and every queue, the
  member \<open>head\<close> after \<open>pop\<close> is the member \<open>head\<close> before. In particular, on the queue
  obtained from a new one by a push that landed in slot 5, the pop whose local is 5 returns
  the reference 7 and clears the flag of slot 5, and the shared head is still 0.
\<close>

theorem GlobalMQ_pop_shared_head_not_advanced:
  "g_head (fst (GlobalMQ_pop h0 g)) = g_head g
   \<and> snd (GlobalMQ_pop 5 (GlobalMQ_push 5 7 fresh_global)) = 7
   \<and> g_head (fst (GlobalMQ_pop 5 (GlobalMQ_push 5 7 fresh_global))) = 0
   \<and> g_head (fst (GlobalMQ_pop 5 (GlobalMQ_push 5 7 fresh_global))) \<noteq> g_head (GlobalMQ_push 5 7 fresh_global) + 1
   \<and> \<not> g_flag (fst (GlobalMQ_pop 5 (GlobalMQ_push 5 7 fresh_global))) (GP 5)"
proof -
  have gp: "GP 5 = 5" "GP 0 = 0" by (simp_all add: GP_def MAX_GLOBAL_MQ_def)
  have e: "GlobalMQ_pop 5 (GlobalMQ_push 5 7 fresh_global)
             = ((GlobalMQ_push 5 7 fresh_global)\<lparr>g_flag := (g_flag (GlobalMQ_push 5 7 fresh_global))(5 := False)\<rparr>, 7)"
    by (simp add: GlobalMQ_pop_def GlobalMQ_push_eq fresh_global_def GlobalMQ_new_def
        sync_bool_compare_and_swap_def Let_def gp)
  show ?thesis
    by (simp add: GlobalMQ_pop_head e gp) (simp add: GlobalMQ_push_eq fresh_global_def GlobalMQ_new_def)
qed

subsection \<open>C3: the reply of the lock session\<close>

text \<open>
  Claim C3 says that a message of the active lock session is inserted one slot before the
  head, so that the next \<open>pop\<close> returns it first. The code evaluated on \<open>locked_BC\<close>, the
  mailbox obtained from the constructor by pushing \<open>msgB\<close> and \<open>msgC\<close> and locking with
  session 7, when \<open>reply7\<close> (session 7) is pushed: whatever the local \<open>head\<close> of \<open>pushhead\<close>
  holds, the queued messages afterwards are not the reply followed by \<open>msgB\<close> and \<open>msgC\<close>.
  When the local happens to hold the value of the member, the reply is written to slot
  63, the lock session is cleared, the member \<open>head\<close> is not moved, and the following pops
  return \<open>msgB\<close>, then \<open>msgC\<close>, then nothing.
\<close>

theorem pushhead_reply_not_popped_first:
  "\<exists>q1. pushes 9 [(0, 0, msgB), (0, 0, msgC)] (fresh_global, MQ_new 1) = Inr (fresh_global, q1)
      \<and> lock 7 q1 = Inr locked_BC
      \<and> contents locked_BC = [Some msgB, Some msgC]
      \<and> (\<forall>h0. case push 9 h0 0 reply7 (fresh_global, locked_BC) of
                  Inl e \<Rightarrow> True
                | Inr s \<Rightarrow> contents (snd s) \<noteq> Some reply7 # contents locked_BC)
      \<and> (\<exists>q3 q4. push 9 (head locked_BC) 0 reply7 (fresh_global, locked_BC) = Inr (fresh_global, q3)
            \<and> lock_session q3 = 0
            \<and> head q3 = head locked_BC
            \<and> queue q3 ! 63 = Some reply7
            \<and> pops 3 q3 = Inr (q4, [Some msgB, Some msgC]))"
proof -
  have "\<exists>q3 q4. push 9 (head locked_BC) 0 reply7 (fresh_global, locked_BC) = Inr (fresh_global, q3)
            \<and> lock_session q3 = 0
            \<and> head q3 = head locked_BC
            \<and> queue q3 ! 63 = Some reply7
            \<and> pops 3 q3 = Inr (q4, [Some msgB, Some msgC])"
    by (simp add: push.simps pushhead.simps locked_BC_def
      msgB_def msgC_def reply7_def in_array_def Let_def MQ_DISPATCHING_def
      MQ_LOCKED_def pop_def numeral_eq_Suc)
  then show ?thesis
    using locked_BC_reached contents_locked_BC push_reply_not_first[of _ fresh_global]
    by simp
qed

subsection \<open>C4: teardown\<close>

text \<open>
  Claim C4 says that \<open>release\<close> after \<open>mark_release\<close> drains every remaining message, frees
  or dispatches each payload and returns their number. The code evaluated: on a marked
  mailbox holding the one message \<open>msgA\<close>, \<open>release\<close> deletes the mailbox and returns 0
  with no payload freed or dispatched; on a marked empty mailbox it does not return
  (\<open>msgB\<close> stands for the content of the local \<open>msg\<close>, which is never written there).
\<close>

theorem release_drain_count_wrong:
  "\<exists>q1 q2 q3.
      push 9 0 0 msgA (fresh_global, MQ_new 1) = Inr (fresh_global, q1)
    \<and> mark_release q1 = Inr q2
    \<and> contents q2 = [Some msgA]
    \<and> release harbor0 msgB 9 0 (fresh_global, q2) = Some (Inr (fresh_global, None, 0, []))
    \<and> mark_release (MQ_new 1) = Inr q3
    \<and> contents q3 = []
    \<and> release harbor0 msgB 9 0 (fresh_global, q3) = None"
proof -
  let ?q2 = "one_msg\<lparr>m_release := 1\<rparr>"
  let ?q3 = "(MQ_new 1)\<lparr>m_release := 1\<rparr>"
  have m: "mark_release one_msg = Inr ?q2"
    by (simp add: mark_release_def one_msg_def)
  have i: "mq_inv ?q2" "head ?q2 \<noteq> tail ?q2" "m_release ?q2 \<noteq> 0"
    by (simp_all add: mq_inv_def one_msg_def)
  have c: "contents ?q2 = [Some msgA]"
    by (simp add: contents_def count_def ring_def one_msg_def)
  have m3: "mark_release (MQ_new 1) = Inr ?q3"
    by (simp add: mark_release_def MQ_new_def)
  have c3: "contents ?q3 = []"
    by (simp add: contents_def count_def ring_def MQ_new_def)
  have r3: "release harbor0 msgB 9 0 (fresh_global, ?q3) = None"
    by (rule release_empty_never_returns) (simp_all add: MQ_new_def harbor0_def msgB_def)
  show ?thesis
    using push_fresh[of 9 0 0 fresh_global] m c release_nonempty[OF i, of harbor0 msgB 9 0 fresh_global]
      m3 c3 r3
    by simp
qed

subsection \<open>C5: GlobalMQ::push and the shared tail counter\<close>

text \<open>
  Claim C5 says that \<open>GlobalMQ::push\<close> increases the shared tail counter by one. The code
  evaluated: for every value \<open>t0\<close> of the local \<open>tail\<close>, the member \<open>tail\<close> after the push is
  the member \<open>tail\<close> before; slot \<open>GP t0\<close> holds the reference and its flag is set. On a new
  queue the tail is 0 after the push.
\<close>

theorem GlobalMQ_push_shared_tail_not_advanced:
  "g_tail (GlobalMQ_push t0 mq g) = g_tail g
   \<and> g_tail (GlobalMQ_push t0 mq g) \<noteq> g_tail g + 1
   \<and> g_queue (GlobalMQ_push t0 mq g) (GP t0) = mq
   \<and> g_flag (GlobalMQ_push t0 mq g) (GP t0)
   \<and> g_tail (GlobalMQ_push 0 7 fresh_global) = 0"
  by (simp add: GlobalMQ_push_eq fresh_global_def GlobalMQ_new_def)

subsection \<open>C6: expansion keeps the order\<close>

text \<open>
  Claim C6 says that for every sequence of pushed messages whose insertion triggers an
  expansion, the expansion doubles the buffer and the messages are popped afterwards in
  the order and number in which they were pushed. Counterexample to C6, in two places.
  On \<open>locked_BC\<close>, which holds \<open>msgB\<close> and \<open>msgC\<close>, the push of \<open>reply7\<close> (of the lock session)
  with the local of \<open>pushhead\<close> holding 3 calls \<open>expand\<close>: the capacity doubles, and the
  mailbox then counts 63 queued cells, \<open>msgB\<close>, \<open>msgC\<close> and 61 cells never written, the
  reply not among them. On \<open>huge\<close>, of capacity \<open>2^30\<close> with one free cell and no lock
  session, the push that fills it calls \<open>expand\<close>, and \<open>cap*2\<close> overflows \<open>int\<close>.
\<close>

theorem expand_order_counterexample:
  "contents locked_BC = [Some msgB, Some msgC]
   \<and> push 9 3 0 reply7 (fresh_global, locked_BC) = Inr (fresh_global, scrambled)
   \<and> cap scrambled = 2 * cap locked_BC
   \<and> contents scrambled = Some msgB # Some msgC # replicate 61 None
   \<and> mq_inv huge
   \<and> lock_session huge = 0
   \<and> push 9 0 0 msgA (fresh_global, huge) = Inl IntOverflow"
proof -
  have 1: "push 9 3 0 reply7 (fresh_global, locked_BC) = Inr (fresh_global, scrambled)"
    by (simp add: push.simps pushhead.simps expand_def c_rem_def in_array_def Let_def
        locked_BC_def scrambled_def reply7_def INT_MAX_def INT_MIN_def MQ_DISPATCHING_def
        MQ_LOCKED_def numeral_eq_Suc)
  have 2: "contents scrambled = Some msgB # Some msgC # replicate 61 None"
    by (simp add: contents_def count_def ring_def scrambled_def numeral_eq_Suc)
  have 3: "mq_inv huge" "lock_session huge = 0"
    by (simp_all add: mq_inv_def huge_def)
  have 4: "\<not> (lock_session huge \<noteq> 0 \<and> session msgA = lock_session huge)"
    by (simp add: huge_def)
  have 5: "int (count huge) + 1 = cap huge \<and> cap huge * 2 > INT_MAX"
    by (simp add: count_def huge_def INT_MAX_def)
  have 6: "push 9 0 0 msgA (fresh_global, huge) = Inl IntOverflow"
    using push_tail_grown[OF 3(1) 4, of 9 0 0 fresh_global] 5 by simp
  show ?thesis
    using contents_locked_BC 1 2 3 6 by (simp add: scrambled_def locked_BC_def)
qed

text \<open>
  Claim C6 as amended: \<open>expand\<close> allocates twice the capacity, copies the cells from the
  head on to the positions from 0, sets \<open>head\<close> to 0 and \<open>tail\<close> to the old capacity, when
  twice the capacity fits an \<open>int\<close> (and is \<open>IntOverflow\<close> otherwise). When none of the pushed
  messages belongs to an active lock session and twice the number of messages, queued and
  pushed, fits an \<open>int\<close>, the messages pushed to a mailbox \<open>q\<close>, whatever expansions this
  takes, are popped in the same sequence as from a mailbox \<open>qb\<close> with the same content
  whose capacity is large enough for no expansion to happen (its capacity is the same
  after the pushes): in both cases the old content followed by the pushed messages, in
  order. What \<open>push\<close> does with a message of the active lock session is not stated here.
\<close>

theorem expand_keeps_fifo_order:
  assumes "mq_inv q" and "mq_inv qb"
    and "\<forall>j \<in> set js. lock_session q = 0 \<or> session (snd (snd j)) \<noteq> lock_session q"
    and "\<forall>j \<in> set js. lock_session qb = 0 \<or> session (snd (snd j)) \<noteq> lock_session qb"
    and "contents qb = contents q" and "int (length (contents q) + length js) < cap qb"
    and "2 * int (length (contents q) + length js) \<le> INT_MAX"
  shows "expand q =
           (if cap q * 2 \<le> INT_MAX
            then Inr (q\<lparr>head := 0, tail := cap q, cap := cap q * 2,
                   queue := map (\<lambda>i. queue q ! nat ((head q + int i) mod cap q)) [0..<nat (cap q)]
                              @ replicate (nat (cap q)) None\<rparr>)
            else Inl IntOverflow)
       \<and> (\<exists>g1 q1 g2 q2 r1 r2.
              pushes this js (g, q) = Inr (g1, q1) \<and> int (length (contents q) + length js) < cap q1
            \<and> pushes this js (g, qb) = Inr (g2, q2) \<and> cap q2 = cap qb
            \<and> pops (length (contents q) + length js) q1 = Inr (r1, contents q @ map (Some \<circ> snd \<circ> snd) js)
            \<and> pops (length (contents q) + length js) q2 = Inr (r2, contents q @ map (Some \<circ> snd \<circ> snd) js))"
proof -
  have a: "expand q =
           (if cap q * 2 \<le> INT_MAX
            then Inr (q\<lparr>head := 0, tail := cap q, cap := cap q * 2,
                   queue := map (\<lambda>i. queue q ! nat ((head q + int i) mod cap q)) [0..<nat (cap q)]
                              @ replicate (nat (cap q)) None\<rparr>)
            else Inl IntOverflow)"
  proof (cases "cap q * 2 \<le> INT_MAX")
    case True
    then show ?thesis using expand_inv[OF assms(1) True] by (simp add: ring_def)
  next
    case False
    then show ?thesis by (simp add: expand_overflow)
  qed
  from pushes_tail_bounded[OF assms(1,3,7), of this g]
  obtain g1 q1 where 1: "pushes this js (g, q) = Inr (g1, q1)" "mq_inv q1"
    "contents q1 = contents q @ map (Some \<circ> snd \<circ> snd) js"
    by blast
  have b: "2 * int (length (contents qb) + length js) \<le> INT_MAX"
    using assms(5,7) by simp
  from pushes_tail_bounded[OF assms(2,4) b, of this g] assms(5,6)
  obtain g2 q2 where 2: "pushes this js (g, qb) = Inr (g2, q2)" "mq_inv q2"
    "contents q2 = contents q @ map (Some \<circ> snd \<circ> snd) js" "cap q2 = cap qb"
    by auto
  have n1: "length (contents q) + length js = length (contents q1)" using 1(3) by simp
  have n2: "length (contents q) + length js = length (contents q2)" using 2(3) by simp
  from pops_contents[OF 1(2) n1] obtain r1 where
    r1: "pops (length (contents q) + length js) q1 = Inr (r1, contents q @ map (Some \<circ> snd \<circ> snd) js)"
    using 1(3) by auto
  from pops_contents[OF 2(2) n2] obtain r2 where
    r2: "pops (length (contents q) + length js) q2 = Inr (r2, contents q @ map (Some \<circ> snd \<circ> snd) js)"
    using 2(3) by auto
  have "int (length (contents q1)) < cap q1"
    using count_less[OF 1(2)] by (simp only: length_contents)
  then have k: "int (length (contents q) + length js) < cap q1"
    by (simp only: n1)
  show ?thesis using a 1(1) k 2(1,4) r1 r2 by blast
qed

text \<open>
  Witness for the amended C6: the 64 messages of \<open>batch\<close>, each with its own \<open>data\<close>, pushed
  to the mailbox \<open>idle\<close>, whose head is at index 1 of its 64 cells, so that the tail wraps
  and the mailbox must expand, and to a mailbox of capacity 128, which does not expand.
  \<open>expand\<close> on \<open>idle\<close> itself moves the cell of index 0 behind the 63 others.
\<close>

theorem expand_keeps_fifo_order_witness:
  "mq_inv idle \<and> mq_inv wide \<and> lock_session idle = 0 \<and> lock_session wide = 0
   \<and> contents wide = contents idle
   \<and> int (length (contents idle) + length batch) < cap wide
   \<and> 2 * int (length (contents idle) + length batch) \<le> INT_MAX
   \<and> head idle = 1 \<and> cap idle = 64
   \<and> expand idle = Inr (idle\<lparr>head := 0, tail := 64, cap := 128,
                           queue := replicate 63 None @ [Some msgA] @ replicate 64 None\<rparr>)
   \<and> (\<exists>g1 q1 g2 q2 r1 r2.
              pushes 9 batch (fresh_global, idle) = Inr (g1, q1) \<and> 64 < cap q1
            \<and> pushes 9 batch (fresh_global, wide) = Inr (g2, q2) \<and> cap q2 = cap wide
            \<and> pops 64 q1 = Inr (r1, map (Some \<circ> numbered) [0..<64])
            \<and> pops 64 q2 = Inr (r2, map (Some \<circ> numbered) [0..<64]))"
proof -
  have l: "lock_session idle = 0" "lock_session wide = 0" "head idle = 1" "cap idle = 64"
    "length batch = 64"
    by (simp_all add: idle_def one_msg_def wide_def batch_def)
  have ci: "contents idle = []"
    by (simp add: contents_def count_def ring_def idle_def one_msg_def)
  have m: "map (Some \<circ> snd \<circ> snd) batch = map (Some \<circ> numbered) [0..<64]"
    by (simp add: batch_def)
  have h: "mq_inv idle" "mq_inv wide"
    "\<forall>j \<in> set batch. lock_session idle = 0 \<or> session (snd (snd j)) \<noteq> lock_session idle"
    "\<forall>j \<in> set batch. lock_session wide = 0 \<or> session (snd (snd j)) \<noteq> lock_session wide"
    "contents wide = contents idle"
    "int (length (contents idle) + length batch) < cap wide"
    "2 * int (length (contents idle) + length batch) \<le> INT_MAX"
    by (simp_all add: l ci contents_wide mq_inv_wide) (simp_all add: mq_inv_def idle_def one_msg_def wide_def INT_MAX_def)
  have e: "map (\<lambda>i. queue idle ! nat ((head idle + int i) mod cap idle)) [0..<nat (cap idle)]
             @ replicate (nat (cap idle)) None
           = replicate 63 None @ [Some msgA] @ replicate 64 None"
    by (simp add: idle_def one_msg_def numeral_eq_Suc)
  have c: "cap idle * 2 \<le> INT_MAX" by (simp add: l INT_MAX_def)
  note t = expand_keeps_fifo_order[OF h, of 9 fresh_global]
  have x: "expand idle = Inr (idle\<lparr>head := 0, tail := cap idle, cap := cap idle * 2,
                           queue := replicate 63 None @ [Some msgA] @ replicate 64 None\<rparr>)"
    using conjunct1[OF t] c by (simp only: e if_True)
  have y: "\<exists>g1 q1 g2 q2 r1 r2.
              pushes 9 batch (fresh_global, idle) = Inr (g1, q1) \<and> 64 < cap q1
            \<and> pushes 9 batch (fresh_global, wide) = Inr (g2, q2) \<and> cap q2 = cap wide
            \<and> pops 64 q1 = Inr (r1, map (Some \<circ> numbered) [0..<64])
            \<and> pops 64 q2 = Inr (r2, map (Some \<circ> numbered) [0..<64])"
    using conjunct2[OF t] by (simp add: ci m l(5))
  show ?thesis
    using h(1,2,5,6,7) l(1-4) x y by (simp add: l(4))
qed

subsection \<open>C7: MQ::pop\<close>

text \<open>
  Claim C7: on a mailbox that is not empty, \<open>pop\<close> returns the message at the head, which
  is the first of the content, leaves the rest of the content, advances \<open>head\<close> by one
  modulo the capacity and sets \<open>in_global\<close> to 0; on an empty mailbox (\<open>head == tail\<close>) it
  returns nothing and changes no field.
\<close>

theorem pop_head_or_nothing:
  assumes "mq_inv q"
  shows "if head q = tail q then pop q = Inr (q, None)
         else pop q = Inr (q\<lparr>head := (head q + 1) mod cap q, in_global := 0\<rparr>, Some (queue q ! nat (head q)))
              \<and> contents q = queue q ! nat (head q) # contents (q\<lparr>head := (head q + 1) mod cap q, in_global := 0\<rparr>)"
proof (cases "head q = tail q")
  case True
  then show ?thesis by (simp add: pop_empty)
next
  case False
  have "popped q = q\<lparr>head := (head q + 1) mod cap q, in_global := 0\<rparr>"
    using popped_head[OF assms] by (simp add: popped_def)
  then show ?thesis
    using False pop_nonempty[OF assms False] popped_contents[OF assms False] by simp
qed

text \<open>Witness for C7: a mailbox with one message, then the empty mailbox it leaves.\<close>

theorem pop_head_or_nothing_witness:
  "mq_inv one_msg \<and> head one_msg \<noteq> tail one_msg
   \<and> pop one_msg = Inr (idle, Some (Some msgA))
   \<and> contents one_msg = [Some msgA] \<and> contents idle = []
   \<and> mq_inv idle \<and> head idle = tail idle \<and> pop idle = Inr (idle, None)"
proof -
  have i: "mq_inv one_msg" "mq_inv idle"
    by (simp_all add: mq_inv_def idle_def one_msg_def)
  have e: "one_msg\<lparr>head := (head one_msg + 1) mod cap one_msg, in_global := 0\<rparr> = idle"
    "queue one_msg ! nat (head one_msg) = Some msgA" "head one_msg \<noteq> tail one_msg"
    "head idle = tail idle" "contents idle = []"
    by (simp_all add: idle_def one_msg_def contents_def count_def ring_def)
  show ?thesis
    using pop_head_or_nothing[OF i(1)] pop_head_or_nothing[OF i(2)] i e by simp
qed

subsection \<open>C8: MQ::pushglobal\<close>

text \<open>
  Claim C8: on a mailbox whose membership is not 0, \<open>pushglobal\<close> calls
  \<open>GlobalMQ::push(this)\<close>, after which a flagged slot holds the reference, and sets the
  membership to \<open>MQ_IN_GLOBAL\<close> exactly when \<open>lock_session\<close> is 0; with a lock session pending
  the global queue is left alone and a membership \<open>MQ_DISPATCHING\<close> becomes \<open>MQ_LOCKED\<close>.
\<close>

theorem pushglobal_unless_locked:
  assumes "in_global q \<noteq> 0"
  shows "pushglobal this t0 (g, q) =
           (if lock_session q = 0
            then Inr (GlobalMQ_push t0 this g, q\<lparr>in_global := MQ_IN_GLOBAL\<rparr>)
            else Inr (g, if in_global q = MQ_DISPATCHING then q\<lparr>in_global := MQ_LOCKED\<rparr> else q))
         \<and> present (GlobalMQ_push t0 this g) this"
  using assms by (simp add: pushglobal_result present_push)

text \<open>Witness for C8: a mailbox without a lock session, and one locked by session 7.\<close>

theorem pushglobal_unless_locked_witness:
  "in_global one_msg \<noteq> 0 \<and> lock_session one_msg = 0
   \<and> pushglobal 9 0 (fresh_global, one_msg) = Inr (GlobalMQ_push 0 9 fresh_global, one_msg)
   \<and> in_global (one_msg\<lparr>in_global := MQ_DISPATCHING, lock_session := 7\<rparr>) \<noteq> 0
   \<and> pushglobal 9 0 (fresh_global, one_msg\<lparr>in_global := MQ_DISPATCHING, lock_session := 7\<rparr>)
         = Inr (fresh_global, one_msg\<lparr>in_global := MQ_LOCKED, lock_session := 7\<rparr>)"
proof -
  have h: "in_global one_msg \<noteq> 0" "in_global (one_msg\<lparr>in_global := MQ_DISPATCHING, lock_session := 7\<rparr>) \<noteq> 0"
    by (simp_all add: one_msg_def MQ_IN_GLOBAL_def MQ_DISPATCHING_def)
  have e: "lock_session one_msg = 0" "one_msg\<lparr>in_global := MQ_IN_GLOBAL\<rparr> = one_msg"
    by (simp_all add: one_msg_def)
  show ?thesis
    using pushglobal_unless_locked[OF h(1), of 9 0 fresh_global]
      pushglobal_unless_locked[OF h(2), of 9 0 fresh_global] h e
    by simp
qed

subsection \<open>C9: MQ::lock\<close>

text \<open>
  Claim C9: when the mailbox has no lock session and its membership is \<open>MQ_IN_GLOBAL\<close>,
  \<open>lock\<close> passes both assertions, sets the membership to \<open>MQ_DISPATCHING\<close> and records the
  session; in every other state it is an assertion failure.
\<close>

theorem lock_requires_queued_unlocked:
  "lock sess q =
     (if lock_session q = 0 \<and> in_global q = MQ_IN_GLOBAL
      then Inr (q\<lparr>in_global := MQ_DISPATCHING, lock_session := sess\<rparr>)
      else Inl AssertionFailure)"
  by (simp add: lock_def)

text \<open>
  Witness for C9: a queued mailbox is locked; locking it again fails, and so does locking
  a mailbox whose membership is 0.
\<close>

theorem lock_requires_queued_unlocked_witness:
  "lock 7 one_msg = Inr (one_msg\<lparr>in_global := MQ_DISPATCHING, lock_session := 7\<rparr>)
   \<and> lock 8 (one_msg\<lparr>in_global := MQ_DISPATCHING, lock_session := 7\<rparr>) = Inl AssertionFailure
   \<and> lock 7 idle = Inl AssertionFailure"
  using lock_requires_queued_unlocked[of 7 one_msg]
    lock_requires_queued_unlocked[of 8 "one_msg\<lparr>in_global := MQ_DISPATCHING, lock_session := 7\<rparr>"]
    lock_requires_queued_unlocked[of 7 idle]
  by (simp add: one_msg_def idle_def MQ_IN_GLOBAL_def MQ_DISPATCHING_def)

subsection \<open>C10: a new mailbox is not announced by push\<close>



end
